theory Spec2Isabelle
  imports Main
begin

section \<open>Data model of the resolution engine (ComponentContext.h)\<close>

text \<open>
  The engine is the class \<open>ComponentContext\<close>. It is generic in the requested type
  \<open>T\<close>; a type is represented by its identity (what \<open>Utils::getMetaTypeInfo< T >()\<close>
  yields). The \<open>static_assert\<close> on \<open>Traits::IsComplete< T >\<close> is a compile-time check
  and has no run-time branch.
\<close>

type_synonym TypeInfo = nat

datatype TypeAliasKey = TypeAliasKey TypeInfo

text \<open>
  Modelled from the spec: \<open>createKeyForType\<close> is declared in a header that is not part of
  the sources (TypeAliasKey.h). The spec asks that equal types give equal keys and that
  the key identifies the type.
\<close>

definition createKeyForType :: "TypeInfo \<Rightarrow> TypeAliasKey" where
  "createKeyForType t = TypeAliasKey t"

text \<open>
  A \<open>std::shared_ptr< T >\<close> is either \<open>nullptr\<close> (\<open>None\<close>) or points to an
  instance, represented by the identity of that instance.
  \<open>std::static_pointer_cast\<close> keeps null-ness and identity.
\<close>

type_synonym handle = nat
type_synonym shared_ptr = "handle option"

text \<open>
  Modelled from the spec: the exception classes are declared outside the sources. These
  are the failures that a factory or a lifetime scope may raise while producing an
  instance. The engine has no \<open>try\<close> block: an exception leaves every engine function
  at once, running the destructors of the locals on the way.
\<close>

datatype exn = CyclicDependency | ConstructionFailure

text \<open>
  Modelled from the spec: \<open>IRegistration\<close> and \<open>RegistrationContext\<close> are declared
  outside the sources. A registration carries what the builder is given at lines 147-151:
  the type it produces and its factory. The factory of a lazily registered type is the
  one described by \<open>Traits::ConstructorDescriptor< T >\<close>; every other factory is
  identified by a number. A registration context gives its registration and its scope
  (lines 93-94).
\<close>

datatype Factory = ConstructorDescriptor TypeInfo | UserFactory nat

record Registration =
  instanceType :: TypeInfo
  instanceFactory :: Factory

record RegistrationContext =
  registration :: Registration
  scope :: nat

text \<open>
  The effects of the engine that leave no value behind, in program order: the registry
  lookups and insertions, the construction and destruction of the local
  \<open>ResolutionContext\<close>, the acquisition and release of \<open>m_mutex\<close> by the
  \<open>std::lock_guard\<close>, and the calls of \<open>getOrCreateComponent\<close>.
\<close>

datatype event =
    Lookup TypeAliasKey
  | Insert Registration
  | NewResolutionContext
  | DeleteResolutionContext
  | Lock
  | Unlock
  | GetOrCreate TypeAliasKey RegistrationContext

text \<open>
  The state reachable from a \<open>ComponentContext\<close>: the content of the registration
  scope behind \<open>m_registrationScope\<close> and the identity of that scope, the two member
  stacks \<open>m_activationStack\<close> and \<open>m_activatedRegistrations\<close>, whatever the lifetime
  scopes keep (\<open>lifetimes\<close>, for instance cached instances), and the log of effects.
\<close>

record 'x state =
  registrationContexts :: "TypeAliasKey \<rightharpoonup> RegistrationContext list"
  scopeId :: nat
  m_activationStack :: "(TypeAliasKey \<times> Registration) list"
  m_activatedRegistrations :: "(TypeAliasKey \<times> Registration) list"
  lifetimes :: 'x
  events :: "event list"

definition emit :: "event \<Rightarrow> 'x state \<Rightarrow> 'x state" where
  "emit e s = s\<lparr>events := events s @ [e]\<rparr>"

text \<open>
  \<open>scope.getOrCreateComponent(typeAliasKey, registration, resolutionContext)\<close> is a
  virtual call into the registration scope and, from there, into the factory, which may
  call back into the engine. It is a parameter of the model: given the scope, the key and
  the registration it turns the state into a new state and either raises or returns a
  possibly null instance. The \<open>ResolutionContext\<close> passed along only holds references to
  the \<open>ComponentContext\<close> and to its two member stacks, which are part of the state.
\<close>

type_synonym 'x getOrCreate =
  "nat \<Rightarrow> TypeAliasKey \<Rightarrow> Registration \<Rightarrow> 'x state \<Rightarrow> (exn + shared_ptr) \<times> 'x state"

section \<open>The collaborators behind the interfaces\<close>

text \<open>
  Modelled from the spec: \<open>IRegistrationScope::tryGetRegistrations\<close> is implemented
  outside the sources. The registry maps a key to the ordered sequence of its
  registration contexts; the lookup is a pure read that gives the whole sequence, or
  reports that nothing is registered and leaves the caller's vector as it was.
\<close>

definition scope_tryGetRegistrations ::
  "(TypeAliasKey \<rightharpoonup> RegistrationContext list) \<Rightarrow> TypeAliasKey \<Rightarrow> RegistrationContext list
     \<Rightarrow> bool \<times> RegistrationContext list" where
  "scope_tryGetRegistrations reg k out =
     (case reg k of None \<Rightarrow> (False, out) | Some rcs \<Rightarrow> (True, rcs))"

text \<open>
  Modelled from the spec: \<open>IRegistrationScope::addRegistration\<close> is implemented outside
  the sources. It pairs the registration with the scope and appends the context to the
  sequence of the key of the registered type, never removing prior entries.
\<close>

definition scope_addRegistration ::
  "nat \<Rightarrow> Registration \<Rightarrow> (TypeAliasKey \<rightharpoonup> RegistrationContext list)
     \<Rightarrow> (TypeAliasKey \<rightharpoonup> RegistrationContext list)" where
  "scope_addRegistration sc r reg =
     (let k = createKeyForType (instanceType r)
      in reg(k \<mapsto> (case reg k of None \<Rightarrow> [] | Some rcs \<Rightarrow> rcs)
                     @ [\<lparr>registration = r, scope = sc\<rparr>]))"

text \<open>
  Modelled from the spec: \<open>IRuntimeRegistrationBuilder::build\<close> is implemented outside
  the sources. Given a type identity and a type-erased factory it gives a registration
  ready for insertion.
\<close>

definition build :: "TypeInfo \<Rightarrow> Factory \<Rightarrow> Registration" where
  "build t f = \<lparr>instanceType = t, instanceFactory = f\<rparr>"

section \<open>The engine\<close>

text \<open>\<open>tryGetRegistrations\<close> (lines 118-121): forwards to the registration scope.\<close>

definition tryGetRegistrations ::
  "TypeAliasKey \<Rightarrow> RegistrationContext list \<Rightarrow> 'x state
     \<Rightarrow> (bool \<times> RegistrationContext list) \<times> 'x state" where
  "tryGetRegistrations k out s =
     (scope_tryGetRegistrations (registrationContexts s) k out, emit (Lookup k) s)"

text \<open>
  \<open>resolve(typeAliasKey, registrationContext)\<close> (lines 86-95). The locals are
  destroyed in reverse order when the function is left, by return or by exception: first
  the lock guard, then the resolution context.
\<close>

definition resolve_rc ::
  "'x getOrCreate \<Rightarrow> TypeAliasKey \<Rightarrow> RegistrationContext \<Rightarrow> 'x state
     \<Rightarrow> (exn + shared_ptr) \<times> 'x state" where
  "resolve_rc goc k rc s =
     (let s1 = emit NewResolutionContext s;
          s2 = emit Lock s1;
          (r, s3) = goc (scope rc) k (registration rc) (emit (GetOrCreate k rc) s2);
          s4 = emit Unlock s3;
          s5 = emit DeleteResolutionContext s4
      in (r, s5))"

text \<open>\<open>resolve(typeAliasKey)\<close> (lines 73-84).\<close>

definition resolve_key ::
  "'x getOrCreate \<Rightarrow> TypeAliasKey \<Rightarrow> 'x state \<Rightarrow> (exn + shared_ptr) \<times> 'x state" where
  "resolve_key goc k s =
     (let ((found, rcs), s1) = tryGetRegistrations k [] s
      in if \<not> found then (Inr None, s1)
         else if rcs = [] then (Inr None, s1)
         else resolve_rc goc k (last rcs) s1)"

text \<open>
  \<open>resolveAll(typeAliasKey, registrationContexts)\<close> (lines 107-116): the loop over the
  contexts, with the vector \<open>instances\<close> as accumulator.
\<close>

fun resolveAll_rcs ::
  "'x getOrCreate \<Rightarrow> TypeAliasKey \<Rightarrow> RegistrationContext list \<Rightarrow> shared_ptr list \<Rightarrow> 'x state
     \<Rightarrow> (exn + shared_ptr list) \<times> 'x state" where
  "resolveAll_rcs goc k [] instances s = (Inr instances, s)"
| "resolveAll_rcs goc k (rc # rcs) instances s =
     (case resolve_rc goc k rc s of
        (Inl e, s') \<Rightarrow> (Inl e, s')
      | (Inr i, s') \<Rightarrow> resolveAll_rcs goc k rcs (instances @ [i]) s')"

text \<open>\<open>resolveAll(typeAliasKey)\<close> (lines 97-105).\<close>

definition resolveAll_key ::
  "'x getOrCreate \<Rightarrow> TypeAliasKey \<Rightarrow> 'x state \<Rightarrow> (exn + shared_ptr list) \<times> 'x state" where
  "resolveAll_key goc k s =
     (let ((found, rcs), s1) = tryGetRegistrations k [] s
      in if \<not> found then (Inr [], s1)
         else resolveAll_rcs goc k rcs [] s1)"

text \<open>The public \<open>resolveAll< T >()\<close> (lines 54-60).\<close>

definition resolveAll ::
  "'x getOrCreate \<Rightarrow> TypeInfo \<Rightarrow> 'x state \<Rightarrow> (exn + shared_ptr list) \<times> 'x state" where
  "resolveAll goc t s = resolveAll_key goc (createKeyForType t) s"

text \<open>
  \<open>tryToRegisterType\<close> (lines 142-160). The second argument is the tag computed by
  \<open>Traits::HasAutowireableConstructor< T >\<close>: the overload for \<open>std::true_type\<close>
  registers the type, the one for \<open>std::false_type\<close> does nothing.
\<close>

definition tryToRegisterType :: "TypeInfo \<Rightarrow> bool \<Rightarrow> 'x state \<Rightarrow> bool \<times> 'x state" where
  "tryToRegisterType t autowireable s =
     (if autowireable
      then (let r = build t (ConstructorDescriptor t);
                s1 = emit (Insert r) s
            in (True, s1\<lparr>registrationContexts :=
                           scope_addRegistration (scopeId s1) r (registrationContexts s1)\<rparr>))
      else (False, s))"

text \<open>
  \<open>resolveIfTypeCanBeRegistered\<close> (lines 133-140). The trait
  \<open>Traits::HasAutowireableConstructor\<close> is declared outside the sources and is a
  parameter: \<open>aw t\<close> says whether type \<open>t\<close> has an autowireable constructor.
\<close>

definition resolveIfTypeCanBeRegistered ::
  "(TypeInfo \<Rightarrow> bool) \<Rightarrow> 'x getOrCreate \<Rightarrow> TypeInfo \<Rightarrow> 'x state
     \<Rightarrow> (exn + shared_ptr) \<times> 'x state" where
  "resolveIfTypeCanBeRegistered aw goc t s =
     (let (registered, s1) = tryToRegisterType t (aw t) s
      in if \<not> registered then (Inr None, s1)
         else resolve_key goc (createKeyForType t) s1)"

text \<open>The public \<open>resolve< T >()\<close> (lines 37-47).\<close>

definition resolve ::
  "(TypeInfo \<Rightarrow> bool) \<Rightarrow> 'x getOrCreate \<Rightarrow> TypeInfo \<Rightarrow> 'x state
     \<Rightarrow> (exn + shared_ptr) \<times> 'x state" where
  "resolve aw goc t s =
     (case resolve_key goc (createKeyForType t) s of
        (Inl e, s1) \<Rightarrow> (Inl e, s1)
      | (Inr (Some h), s1) \<Rightarrow> (Inr (Some h), s1)
      | (Inr None, s1) \<Rightarrow> resolveIfTypeCanBeRegistered aw goc t s1)"

section \<open>Notions used to state the properties\<close>

text \<open>The ordered sequence of contexts registered for a key, empty when there is none.\<close>

definition registered :: "'x state \<Rightarrow> TypeAliasKey \<Rightarrow> RegistrationContext list" where
  "registered s k = (case registrationContexts s k of None \<Rightarrow> [] | Some rcs \<Rightarrow> rcs)"

text \<open>
  The state in which the loop of \<open>resolveAll\<close> resolves the context of index \<open>i\<close>: the
  one left by the resolutions of the contexts before it.
\<close>

fun stateBefore ::
  "'x getOrCreate \<Rightarrow> TypeAliasKey \<Rightarrow> RegistrationContext list \<Rightarrow> nat \<Rightarrow> 'x state \<Rightarrow> 'x state" where
  "stateBefore goc k rcs 0 s = s"
| "stateBefore goc k [] (Suc i) s = s"
| "stateBefore goc k (rc # rcs) (Suc i) s = stateBefore goc k rcs i (snd (resolve_rc goc k rc s))"

text \<open>The context that \<open>tryToRegisterType\<close> inserts for type \<open>t\<close> in the scope \<open>sc\<close>.\<close>

definition autoContext :: "nat \<Rightarrow> TypeInfo \<Rightarrow> RegistrationContext" where
  "autoContext sc t = \<lparr>registration = build t (ConstructorDescriptor t), scope = sc\<rparr>"

text \<open>
  \<open>m_mutex\<close> is a \<open>std::recursive_mutex\<close>: the thread that runs the engine holds it a
  number of times. \<open>held d e\<close> is that number after the effect \<open>e\<close>, when it was \<open>d\<close>
  before; \<open>underMutex P d es\<close> says that, in the run \<open>es\<close> started with the mutex held
  \<open>d\<close> times, every effect that satisfies \<open>P\<close> happens while the mutex is held.
\<close>

fun held :: "nat \<Rightarrow> event \<Rightarrow> nat" where
  "held d Lock = Suc d"
| "held d Unlock = d - 1"
| "held d e = d"

fun underMutex :: "(event \<Rightarrow> bool) \<Rightarrow> nat \<Rightarrow> event list \<Rightarrow> bool" where
  "underMutex P d [] = True"
| "underMutex P d (e # es) = ((P e \<longrightarrow> 0 < d) \<and> underMutex P (held d e) es)"

fun creates :: "event \<Rightarrow> bool" where
  "creates (GetOrCreate k rc) = True"
| "creates e = False"

fun inserts :: "event \<Rightarrow> bool" where
  "inserts (Insert r) = True"
| "inserts e = False"

fun selects :: "event \<Rightarrow> bool" where
  "selects (Lookup k) = True"
| "selects e = False"

text \<open>
  The effects that need the mutex: a call of \<open>getOrCreateComponent\<close>, and a release
  (which is an error on a mutex that is not held).
\<close>

definition needsMutex :: "event \<Rightarrow> bool" where
  "needsMutex e = (creates e \<or> e = Unlock)"

text \<open>
  What is asked of the effects of a call of \<open>getOrCreateComponent\<close>, which runs with the
  mutex held: they keep the discipline and release the mutex as often as they acquire it.
\<close>

definition lockedRun :: "event list \<Rightarrow> bool" where
  "lockedRun es = (underMutex needsMutex 1 es \<and> foldl held 1 es = 1)"

text \<open>
  A run has one construction and one destruction of a \<open>ResolutionContext\<close> for each call
  of \<open>getOrCreateComponent\<close>.
\<close>

definition perCall :: "event list \<Rightarrow> bool" where
  "perCall es = (count_list es NewResolutionContext = length (filter creates es)
               \<and> count_list es DeleteResolutionContext = length (filter creates es))"

section \<open>Concrete registries and collaborators\<close>

text \<open>A fresh engine: nothing registered, no resolution in flight, no effect yet.\<close>

definition s0 :: "unit state" where
  "s0 = \<lparr>registrationContexts = Map.empty, scopeId = 0, m_activationStack = [],
         m_activatedRegistrations = [], lifetimes = (), events = []\<rparr>"

text \<open>A context registered by the user for type \<open>t\<close>, with factory number \<open>n\<close>.\<close>

definition userContext :: "nat \<Rightarrow> TypeInfo \<Rightarrow> RegistrationContext" where
  "userContext n t = \<lparr>registration = build t (UserFactory n), scope = 0\<rparr>"

definition withContexts :: "TypeInfo \<Rightarrow> RegistrationContext list \<Rightarrow> unit state" where
  "withContexts t rcs = s0\<lparr>registrationContexts := [createKeyForType t \<mapsto> rcs]\<rparr>"

text \<open>
  Lifetime scopes without a cache. With \<open>constructing\<close> every factory gives an instance:
  user factory \<open>n\<close> the instance \<open>n\<close>, the described constructor of type \<open>t\<close> the
  instance \<open>t\<close>. With \<open>declining\<close> the user factories decline to produce and give a
  null pointer.
\<close>

definition constructing :: "unit getOrCreate" where
  "constructing sc k r s =
     (case instanceFactory r of
        UserFactory n \<Rightarrow> (Inr (Some n), s)
      | ConstructorDescriptor t \<Rightarrow> (Inr (Some t), s))"

definition declining :: "unit getOrCreate" where
  "declining sc k r s =
     (case instanceFactory r of
        UserFactory n \<Rightarrow> (Inr None, s)
      | ConstructorDescriptor t \<Rightarrow> (Inr (Some t), s))"

definition everyType :: "TypeInfo \<Rightarrow> bool" where
  "everyType t = True"

definition noType :: "TypeInfo \<Rightarrow> bool" where
  "noType t = False"

text \<open>
  A factory with a dependency: user factory \<open>n\<close> first resolves type \<open>n\<close> through the
  engine, as a factory does with \<open>c.resolve< Dependency >()\<close>, and then gives its instance.
  In \<open>twoTypes\<close> type 3 is produced by such a factory, which depends on type 4.
\<close>

definition dependent :: "unit getOrCreate" where
  "dependent sc k r s =
     (case instanceFactory r of
        UserFactory n \<Rightarrow>
          (case resolve noType constructing n s of
             (Inl e, s') \<Rightarrow> (Inl e, s')
           | (Inr d, s') \<Rightarrow> (Inr (Some (instanceType r)), s'))
      | ConstructorDescriptor t \<Rightarrow> (Inr (Some t), s))"

definition twoTypes :: "unit state" where
  "twoTypes = s0\<lparr>registrationContexts :=
     [createKeyForType 3 \<mapsto> [userContext 4 3], createKeyForType 4 \<mapsto> [userContext 0 4]]\<rparr>"

text \<open>
  A lifetime scope that keeps a count in \<open>lifetimes\<close>: its factories produce an instance
  on the first call and decline on every later one. \<open>fresh\<close> is an engine with that
  count at zero and nothing registered.
\<close>

definition fresh :: "nat state" where
  "fresh = \<lparr>registrationContexts = Map.empty, scopeId = 0, m_activationStack = [],
            m_activatedRegistrations = [], lifetimes = 0, events = []\<rparr>"

definition onceOnly :: "nat getOrCreate" where
  "onceOnly sc k r s =
     (if lifetimes s = 0 then (Inr (Some (instanceType r)), s\<lparr>lifetimes := 1\<rparr>)
      else (Inr None, s))"

section \<open>Executing the engine on a given registry\<close>

text \<open>
  Each engine function is a few lines over the one below it. The lemmas of this section
  run them on a registry of a known shape.
\<close>

lemma emit_fields [simp]:
  "registrationContexts (emit e s) = registrationContexts s"
  "scopeId (emit e s) = scopeId s"
  "m_activationStack (emit e s) = m_activationStack s"
  "m_activatedRegistrations (emit e s) = m_activatedRegistrations s"
  "lifetimes (emit e s) = lifetimes s"
  "events (emit e s) = events s @ [e]"
  by (simp_all add: emit_def)

lemma tryGetRegistrations_None:
  "registrationContexts s k = None \<Longrightarrow>
     tryGetRegistrations k out s = ((False, out), emit (Lookup k) s)"
  by (simp add: tryGetRegistrations_def scope_tryGetRegistrations_def)

lemma tryGetRegistrations_Some:
  "registrationContexts s k = Some rcs \<Longrightarrow>
     tryGetRegistrations k out s = ((True, rcs), emit (Lookup k) s)"
  by (simp add: tryGetRegistrations_def scope_tryGetRegistrations_def)

lemma resolve_key_None:
  "registrationContexts s k = None \<Longrightarrow> resolve_key goc k s = (Inr None, emit (Lookup k) s)"
  by (simp add: resolve_key_def tryGetRegistrations_None)

lemma resolve_key_Nil:
  "registrationContexts s k = Some [] \<Longrightarrow> resolve_key goc k s = (Inr None, emit (Lookup k) s)"
  by (simp add: resolve_key_def tryGetRegistrations_Some)

lemma resolve_key_last:
  "registrationContexts s k = Some rcs \<Longrightarrow> rcs \<noteq> [] \<Longrightarrow>
     resolve_key goc k s = resolve_rc goc k (last rcs) (emit (Lookup k) s)"
  by (simp add: resolve_key_def tryGetRegistrations_Some)

lemma resolve_rc_fst:
  "fst (resolve_rc goc k rc s) =
     fst (goc (scope rc) k (registration rc)
            (emit (GetOrCreate k rc) (emit Lock (emit NewResolutionContext s))))"
  by (simp add: resolve_rc_def Let_def split: prod.splits)

lemma resolve_rc_snd:
  "snd (resolve_rc goc k rc s) =
     emit DeleteResolutionContext (emit Unlock
       (snd (goc (scope rc) k (registration rc)
               (emit (GetOrCreate k rc) (emit Lock (emit NewResolutionContext s))))))"
  by (simp add: resolve_rc_def Let_def split: prod.splits)

lemma resolve_rc_events:
  "events (snd (resolve_rc goc k rc s)) =
     events (snd (goc (scope rc) k (registration rc)
            (emit (GetOrCreate k rc) (emit Lock (emit NewResolutionContext s)))))
     @ [Unlock, DeleteResolutionContext]"
  by (simp add: resolve_rc_def Let_def split: prod.splits)

lemma resolveIfTypeCanBeRegistered_false:
  "\<not> aw t \<Longrightarrow> resolveIfTypeCanBeRegistered aw goc t s = (Inr None, s)"
  by (simp add: resolveIfTypeCanBeRegistered_def tryToRegisterType_def)

lemma tryToRegisterType_true:
  "tryToRegisterType t True s =
     (True, s\<lparr>registrationContexts :=
                 scope_addRegistration (scopeId s) (build t (ConstructorDescriptor t))
                   (registrationContexts s),
               events := events s @ [Insert (build t (ConstructorDescriptor t))]\<rparr>)"
  by (simp add: tryToRegisterType_def emit_def Let_def)

lemma scope_addRegistration_key:
  "scope_addRegistration sc (build t f) reg (createKeyForType t) =
     Some ((case reg (createKeyForType t) of None \<Rightarrow> [] | Some rcs \<Rightarrow> rcs)
           @ [\<lparr>registration = build t f, scope = sc\<rparr>])"
  by (simp add: scope_addRegistration_def build_def Let_def)

lemma resolveIfTypeCanBeRegistered_true:
  assumes "aw t"
  shows "resolveIfTypeCanBeRegistered aw goc t s =
     resolve_rc goc (createKeyForType t)
       \<lparr>registration = build t (ConstructorDescriptor t), scope = scopeId s\<rparr>
       (s\<lparr>registrationContexts :=
            scope_addRegistration (scopeId s) (build t (ConstructorDescriptor t))
              (registrationContexts s),
          events := events s @ [Insert (build t (ConstructorDescriptor t)),
                                Lookup (createKeyForType t)]\<rparr>)"
  using assms
  by (simp add: resolveIfTypeCanBeRegistered_def tryToRegisterType_true resolve_key_def
      tryGetRegistrations_def scope_tryGetRegistrations_def scope_addRegistration_key emit_def)

lemma resolve_unregistered_autowireable:
  assumes "aw t"
    and "registrationContexts s (createKeyForType t) = None
         \<or> registrationContexts s (createKeyForType t) = Some []"
  shows "resolve aw goc t s =
     resolve_rc goc (createKeyForType t)
       \<lparr>registration = build t (ConstructorDescriptor t), scope = scopeId s\<rparr>
       (s\<lparr>registrationContexts := (registrationContexts s)(createKeyForType t \<mapsto>
            [\<lparr>registration = build t (ConstructorDescriptor t), scope = scopeId s\<rparr>]),
          events := events s @ [Lookup (createKeyForType t),
                                Insert (build t (ConstructorDescriptor t)),
                                Lookup (createKeyForType t)]\<rparr>)"
proof -
  let ?k = "createKeyForType t"
  have first: "resolve_key goc ?k s = (Inr None, emit (Lookup ?k) s)"
    using assms(2) by (auto simp: resolve_key_None resolve_key_Nil)
  have add: "scope_addRegistration (scopeId s) (build t (ConstructorDescriptor t))
               (registrationContexts s) =
             (registrationContexts s)(?k \<mapsto>
               [\<lparr>registration = build t (ConstructorDescriptor t), scope = scopeId s\<rparr>])"
    using assms(2) by (auto simp: scope_addRegistration_def build_def Let_def)
  show ?thesis
    using assms(1)
    by (simp add: resolve_def first resolveIfTypeCanBeRegistered_true [of aw t] add emit_def)
qed

lemma resolve_registered:
  assumes "registrationContexts s (createKeyForType t) = Some rcs" and "rcs \<noteq> []"
  shows "resolve aw goc t s =
     (case resolve_rc goc (createKeyForType t) (last rcs) (emit (Lookup (createKeyForType t)) s) of
        (Inl e, s1) \<Rightarrow> (Inl e, s1)
      | (Inr (Some h), s1) \<Rightarrow> (Inr (Some h), s1)
      | (Inr None, s1) \<Rightarrow> resolveIfTypeCanBeRegistered aw goc t s1)"
  using assms by (simp add: resolve_def resolve_key_last)

lemma resolveAll_registered:
  "resolveAll goc t s =
     resolveAll_rcs goc (createKeyForType t) (registered s (createKeyForType t)) []
       (emit (Lookup (createKeyForType t)) s)"
  by (simp add: resolveAll_def resolveAll_key_def tryGetRegistrations_def
      scope_tryGetRegistrations_def registered_def split: option.splits)

text \<open>
  The equations that evaluate a run on a concrete registry, and the concrete lifetime scopes.
\<close>

lemmas run_simps =
  s0_def withContexts_def twoTypes_def userContext_def autoContext_def declining_def
  constructing_def dependent_def everyType_def noType_def
  resolve_def resolve_key_def resolveAll_def resolveAll_key_def tryGetRegistrations_def
  scope_tryGetRegistrations_def resolve_rc_def resolveIfTypeCanBeRegistered_def
  tryToRegisterType_def scope_addRegistration_def createKeyForType_def build_def emit_def
  Let_def registered_def

lemma constructing_snd: "snd (constructing sc k r st) = st"
  by (simp add: constructing_def split: Factory.splits)

lemma constructing_fst: "fst (constructing sc k r st) \<noteq> Inr None"
  by (simp add: constructing_def split: Factory.splits)

lemma declining_snd: "snd (declining sc k r st) = st"
  by (simp add: declining_def split: Factory.splits)

section \<open>What the engine leaves alone\<close>

text \<open>
  A part of the state that \<open>getOrCreateComponent\<close> does not change and that does not
  depend on the log of effects is not changed by the engine either; for \<open>resolve\<close> it
  must not depend on the registry, into which the fallback inserts.
\<close>

lemma resolve_rc_frame:
  assumes "\<forall>sc r st. registrationContexts (snd (goc sc k r st)) k' = registrationContexts st k'"
  shows "registrationContexts (snd (resolve_rc goc k rc s)) k' = registrationContexts s k'"
proof -
  obtain r s3 where g: "goc (scope rc) k (registration rc)
      (emit (GetOrCreate k rc) (emit Lock (emit NewResolutionContext s))) = (r, s3)"
    by (cases "goc (scope rc) k (registration rc)
      (emit (GetOrCreate k rc) (emit Lock (emit NewResolutionContext s)))")
  from assms have "registrationContexts (snd (goc (scope rc) k (registration rc)
      (emit (GetOrCreate k rc) (emit Lock (emit NewResolutionContext s))))) k'
     = registrationContexts (emit (GetOrCreate k rc) (emit Lock (emit NewResolutionContext s))) k'"
    by blast
  with g show ?thesis by (simp add: resolve_rc_def Let_def)
qed






section \<open>The effects of a call\<close>

text \<open>
  The mutex discipline of a run composes: a run is fine from any number of holds if it
  is fine from fewer.
\<close>

lemma underMutex_append:
  "underMutex P d (xs @ ys) = (underMutex P d xs \<and> underMutex P (foldl held d xs) ys)"
  by (induction xs arbitrary: d) auto

lemma held_shift:
  "(needsMutex e \<longrightarrow> 0 < d) \<Longrightarrow> held (d + n) e = held d e + n"
  by (cases e) (auto simp: needsMutex_def)

lemma underMutex_shift:
  "underMutex needsMutex d es \<Longrightarrow>
     underMutex needsMutex (d + n) es \<and> foldl held (d + n) es = foldl held d es + n"
proof (induction es arbitrary: d)
  case Nil
  then show ?case by simp
next
  case (Cons e es)
  then have e: "needsMutex e \<longrightarrow> 0 < d" and rest: "underMutex needsMutex (held d e) es"
    by simp_all
  from Cons.IH [OF rest] held_shift [OF e, of n] e show ?case by auto
qed

lemma lockedRun_any:
  assumes "lockedRun es"
  shows "underMutex needsMutex (Suc d) es \<and> foldl held (Suc d) es = Suc d"
  using assms underMutex_shift [of 1 es d] by (simp add: lockedRun_def)

text \<open>
  A property \<open>Q\<close> of runs holds of the effects of every engine function if it holds of
  the empty run, of one lookup and of one insertion, is kept by concatenation, and holds
  of the bracket that \<open>resolve(typeAliasKey, registrationContext)\<close> puts around the
  effects of \<open>getOrCreateComponent\<close> whenever these satisfy \<open>G\<close>.
\<close>

lemma resolve_rc_trace:
  assumes goc: "\<forall>sc k r st. \<exists>es. events (snd (goc sc k r st)) = events st @ es \<and> G es"
    and bracket: "\<And>k rc es. G es \<Longrightarrow>
       Q ([NewResolutionContext, Lock, GetOrCreate k rc] @ es @ [Unlock, DeleteResolutionContext])"
  shows "\<exists>es. events (snd (resolve_rc goc k rc s)) = events s @ es \<and> Q es"
proof -
  let ?s2 = "emit (GetOrCreate k rc) (emit Lock (emit NewResolutionContext s))"
  from goc obtain es where es: "events (snd (goc (scope rc) k (registration rc) ?s2))
      = events ?s2 @ es" "G es"
    by blast
  have "events (snd (resolve_rc goc k rc s)) =
      events s @ ([NewResolutionContext, Lock, GetOrCreate k rc] @ es
                  @ [Unlock, DeleteResolutionContext])"
    using es(1) by (simp add: resolve_rc_events)
  with bracket [OF es(2)] show ?thesis by blast
qed

lemma resolve_key_trace:
  assumes goc: "\<forall>sc k r st. \<exists>es. events (snd (goc sc k r st)) = events st @ es \<and> G es"
    and bracket: "\<And>k rc es. G es \<Longrightarrow>
       Q ([NewResolutionContext, Lock, GetOrCreate k rc] @ es @ [Unlock, DeleteResolutionContext])"
    and app: "\<And>xs ys. Q xs \<Longrightarrow> Q ys \<Longrightarrow> Q (xs @ ys)"
    and lookup: "\<And>k. Q [Lookup k]"
  shows "\<exists>es. events (snd (resolve_key goc k s)) = events s @ es \<and> Q es"
proof (cases "registrationContexts s k = None \<or> registrationContexts s k = Some []")
  case True
  then have "events (snd (resolve_key goc k s)) = events s @ [Lookup k]"
    by (auto simp: resolve_key_None resolve_key_Nil)
  with lookup show ?thesis by blast
next
  case False
  then obtain rcs where rcs: "registrationContexts s k = Some rcs" "rcs \<noteq> []"
    by (cases "registrationContexts s k") auto
  from resolve_rc_trace [where Q = Q and G = G, OF goc bracket]
  obtain es where es: "events (snd (resolve_rc goc k (last rcs) (emit (Lookup k) s)))
      = events (emit (Lookup k) s) @ es" "Q es"
    by blast
  have "events (snd (resolve_key goc k s)) = events s @ ([Lookup k] @ es)"
    using es(1) by (simp add: resolve_key_last [OF rcs])
  with app [OF lookup es(2)] show ?thesis by blast
qed

lemma resolveAll_rcs_trace:
  assumes goc: "\<forall>sc k r st. \<exists>es. events (snd (goc sc k r st)) = events st @ es \<and> G es"
    and bracket: "\<And>k rc es. G es \<Longrightarrow>
       Q ([NewResolutionContext, Lock, GetOrCreate k rc] @ es @ [Unlock, DeleteResolutionContext])"
    and app: "\<And>xs ys. Q xs \<Longrightarrow> Q ys \<Longrightarrow> Q (xs @ ys)"
    and nil: "Q []"
  shows "\<exists>es. events (snd (resolveAll_rcs goc k rcs acc s)) = events s @ es \<and> Q es"
proof (induction rcs arbitrary: acc s)
  case Nil
  with nil show ?case by simp
next
  case (Cons rc rcs)
  obtain r s1 where step: "resolve_rc goc k rc s = (r, s1)"
    by (cases "resolve_rc goc k rc s")
  from resolve_rc_trace [where Q = Q and G = G, OF goc bracket, of k rc s] step
  obtain es where es: "events s1 = events s @ es" "Q es"
    by auto
  show ?case
  proof (cases r)
    case (Inl e)
    with step es show ?thesis by auto
  next
    case (Inr i)
    from Cons.IH [of "acc @ [i]" s1] obtain es' where
      es': "events (snd (resolveAll_rcs goc k rcs (acc @ [i]) s1)) = events s1 @ es'" "Q es'"
      by blast
    have "events (snd (resolveAll_rcs goc k (rc # rcs) acc s)) = events s @ (es @ es')"
      using step Inr es(1) es'(1) by simp
    with app [OF es(2) es'(2)] show ?thesis by blast
  qed
qed

lemma resolveAll_trace:
  assumes goc: "\<forall>sc k r st. \<exists>es. events (snd (goc sc k r st)) = events st @ es \<and> G es"
    and bracket: "\<And>k rc es. G es \<Longrightarrow>
       Q ([NewResolutionContext, Lock, GetOrCreate k rc] @ es @ [Unlock, DeleteResolutionContext])"
    and app: "\<And>xs ys. Q xs \<Longrightarrow> Q ys \<Longrightarrow> Q (xs @ ys)"
    and nil: "Q []"
    and lookup: "\<And>k. Q [Lookup k]"
  shows "\<exists>es. events (snd (resolveAll goc t s)) = events s @ es \<and> Q es"
proof -
  let ?k = "createKeyForType t"
  from resolveAll_rcs_trace [where Q = Q and G = G, OF goc bracket app nil,
      of ?k "registered s ?k" "[]" "emit (Lookup ?k) s"]
  obtain es where es: "events (snd (resolveAll goc t s)) = events (emit (Lookup ?k) s) @ es" "Q es"
    by (auto simp: resolveAll_registered)
  then have "events (snd (resolveAll goc t s)) = events s @ ([Lookup ?k] @ es)" by simp
  with app [OF lookup es(2)] show ?thesis by blast
qed

lemma resolveIfTypeCanBeRegistered_trace:
  assumes goc: "\<forall>sc k r st. \<exists>es. events (snd (goc sc k r st)) = events st @ es \<and> G es"
    and bracket: "\<And>k rc es. G es \<Longrightarrow>
       Q ([NewResolutionContext, Lock, GetOrCreate k rc] @ es @ [Unlock, DeleteResolutionContext])"
    and app: "\<And>xs ys. Q xs \<Longrightarrow> Q ys \<Longrightarrow> Q (xs @ ys)"
    and nil: "Q []"
    and lookup: "\<And>k. Q [Lookup k]"
    and insert: "\<And>r. Q [Insert r]"
  shows "\<exists>es. events (snd (resolveIfTypeCanBeRegistered aw goc t s)) = events s @ es \<and> Q es"
proof (cases "aw t")
  case False
  with nil show ?thesis by (simp add: resolveIfTypeCanBeRegistered_false)
next
  case True
  let ?k = "createKeyForType t"
  let ?r = "build t (ConstructorDescriptor t)"
  let ?s1 = "s\<lparr>registrationContexts := scope_addRegistration (scopeId s) ?r (registrationContexts s),
               events := events s @ [Insert ?r, Lookup ?k]\<rparr>"
  from resolve_rc_trace [where Q = Q and G = G, OF goc bracket]
  obtain es where es: "events (snd (resolve_rc goc ?k
       \<lparr>registration = ?r, scope = scopeId s\<rparr> ?s1)) = events ?s1 @ es" "Q es"
    by blast
  have "events (snd (resolveIfTypeCanBeRegistered aw goc t s)) =
      events s @ ([Insert ?r] @ [Lookup ?k] @ es)"
    using es(1) True by (simp add: resolveIfTypeCanBeRegistered_true [of aw t])
  with app [OF insert app [OF lookup es(2)]] show ?thesis by blast
qed

lemma resolve_trace:
  assumes goc: "\<forall>sc k r st. \<exists>es. events (snd (goc sc k r st)) = events st @ es \<and> G es"
    and bracket: "\<And>k rc es. G es \<Longrightarrow>
       Q ([NewResolutionContext, Lock, GetOrCreate k rc] @ es @ [Unlock, DeleteResolutionContext])"
    and app: "\<And>xs ys. Q xs \<Longrightarrow> Q ys \<Longrightarrow> Q (xs @ ys)"
    and nil: "Q []"
    and lookup: "\<And>k. Q [Lookup k]"
    and insert: "\<And>r. Q [Insert r]"
  shows "\<exists>es. events (snd (resolve aw goc t s)) = events s @ es \<and> Q es"
proof -
  let ?k = "createKeyForType t"
  obtain r s1 where first: "resolve_key goc ?k s = (r, s1)"
    by (cases "resolve_key goc ?k s")
  from resolve_key_trace [where Q = Q and G = G, OF goc bracket app lookup, of ?k s] first
  obtain es where es: "events s1 = events s @ es" "Q es"
    by auto
  show ?thesis
  proof (cases "r = Inr None")
    case False
    then have "resolve aw goc t s = (r, s1)"
      using first by (auto simp: resolve_def split: sum.splits option.splits)
    with es show ?thesis by auto
  next
    case True
    then have run: "resolve aw goc t s = resolveIfTypeCanBeRegistered aw goc t s1"
      using first by (simp add: resolve_def)
    from resolveIfTypeCanBeRegistered_trace [where Q = Q and G = G,
        OF goc bracket app nil lookup insert, of aw t s1]
    obtain es' where es': "events (snd (resolveIfTypeCanBeRegistered aw goc t s1)) = events s1 @ es'"
      "Q es'"
      by blast
    have "events (snd (resolve aw goc t s)) = events s @ (es @ es')"
      using run es(1) es'(1) by simp
    with app [OF es(2) es'(2)] show ?thesis by blast
  qed
qed


text \<open>
  The first effect of the two public functions is the lookup of the key, provided
  \<open>getOrCreateComponent\<close> only adds to the log of effects.
\<close>

lemma resolve_first_effect:
  assumes goc: "\<forall>sc k r st. \<exists>es. events (snd (goc sc k r st)) = events st @ es"
  shows "\<exists>es. events (snd (resolve aw goc t s)) = events s @ Lookup (createKeyForType t) # es"
proof -
  let ?k = "createKeyForType t"
  let ?Q = "\<lambda>es::event list. True"
  from goc have goc': "\<forall>sc k r st. \<exists>es. events (snd (goc sc k r st)) = events st @ es \<and> ?Q es"
    by simp
  obtain r s1 where first: "resolve_key goc ?k s = (r, s1)"
    by (cases "resolve_key goc ?k s")
  have "\<exists>es. events (snd (resolve_key goc ?k s)) = events s @ Lookup ?k # es"
  proof (cases "registrationContexts s ?k = None \<or> registrationContexts s ?k = Some []")
    case True
    then show ?thesis by (auto simp: resolve_key_None resolve_key_Nil)
  next
    case False
    then obtain rcs where rcs: "registrationContexts s ?k = Some rcs" "rcs \<noteq> []"
      by (cases "registrationContexts s ?k") auto
    from resolve_rc_trace [where Q = ?Q and G = ?Q, OF goc']
    obtain es where "events (snd (resolve_rc goc ?k (last rcs) (emit (Lookup ?k) s)))
        = events (emit (Lookup ?k) s) @ es"
      by blast
    then show ?thesis by (simp add: resolve_key_last [OF rcs])
  qed
  with first obtain es1 where es1: "events s1 = events s @ Lookup ?k # es1"
    by auto
  show ?thesis
  proof (cases "r = Inr None")
    case False
    then have "resolve aw goc t s = (r, s1)"
      using first by (auto simp: resolve_def split: sum.splits option.splits)
    with es1 show ?thesis by simp
  next
    case True
    then have run: "resolve aw goc t s = resolveIfTypeCanBeRegistered aw goc t s1"
      using first by (simp add: resolve_def)
    from resolveIfTypeCanBeRegistered_trace [where Q = ?Q and G = ?Q, OF goc', of aw t s1]
    obtain es2 where "events (snd (resolveIfTypeCanBeRegistered aw goc t s1)) = events s1 @ es2"
      by auto
    with run es1 have "events (snd (resolve aw goc t s)) = events s @ Lookup ?k # (es1 @ es2)"
      by simp
    then show ?thesis by blast
  qed
qed

lemma resolveAll_first_effect:
  assumes goc: "\<forall>sc k r st. \<exists>es. events (snd (goc sc k r st)) = events st @ es"
  shows "\<exists>es. events (snd (resolveAll goc t s)) = events s @ Lookup (createKeyForType t) # es"
proof -
  let ?k = "createKeyForType t"
  let ?Q = "\<lambda>es::event list. True"
  from goc have goc': "\<forall>sc k r st. \<exists>es. events (snd (goc sc k r st)) = events st @ es \<and> ?Q es"
    by simp
  from resolveAll_rcs_trace [where Q = ?Q and G = ?Q, OF goc',
      of ?k "registered s ?k" "[]" "emit (Lookup ?k) s"]
  obtain es where "events (snd (resolveAll goc t s)) = events (emit (Lookup ?k) s) @ es"
    by (auto simp: resolveAll_registered)
  then show ?thesis by simp
qed

text \<open>
  The concrete lifetime scopes keep both disciplines, also the one that calls back into
  the engine.
\<close>

lemma constructing_trace:
  "\<exists>es. events (snd (resolve aw constructing t s)) = events s @ es
        \<and> (\<forall>d. underMutex needsMutex d es \<and> foldl held d es = d) \<and> perCall es"
proof -
  let ?Q = "\<lambda>es. (\<forall>d. underMutex needsMutex d es \<and> foldl held d es = d) \<and> perCall es"
  have goc: "\<forall>sc k r st. \<exists>es. events (snd (constructing sc k r st)) = events st @ es \<and> es = []"
    by (simp add: constructing_snd)
  have bracket: "?Q ([NewResolutionContext, Lock, GetOrCreate k rc] @ es
                     @ [Unlock, DeleteResolutionContext])" if "es = []" for k rc es
    using that by (simp add: needsMutex_def perCall_def)
  have app: "?Q (xs @ ys)" if "?Q xs" "?Q ys" for xs ys
    using that by (simp add: underMutex_append perCall_def)
  have nil: "?Q []" by (simp add: perCall_def)
  have lookup: "?Q [Lookup k]" for k by (simp add: needsMutex_def perCall_def)
  have insert: "?Q [Insert r]" for r by (simp add: needsMutex_def perCall_def)
  show ?thesis
    by (rule resolve_trace [where Q = ?Q and G = "\<lambda>es. es = []",
          OF goc bracket app nil lookup insert])
qed

lemma dependent_trace:
  "\<exists>es. events (snd (dependent sc k r st)) = events st @ es \<and> lockedRun es \<and> perCall es"
proof (cases "instanceFactory r")
  case (ConstructorDescriptor t)
  then show ?thesis by (simp add: dependent_def lockedRun_def perCall_def)
next
  case (UserFactory n)
  from constructing_trace [of noType n st] obtain es where
    es: "events (snd (resolve noType constructing n st)) = events st @ es"
      "\<forall>d. underMutex needsMutex d es \<and> foldl held d es = d" "perCall es"
    by blast
  have "snd (dependent sc k r st) = snd (resolve noType constructing n st)"
    using UserFactory by (simp add: dependent_def split: prod.splits sum.splits)
  with es show ?thesis by (auto simp: lockedRun_def)
qed


section \<open>Singular resolution\<close>

text \<open>
  Claim C1, as amended. When at least one context is registered for the key of \<open>T\<close>,
  \<open>resolve< T >()\<close> selects the last registered one, and what it returns is the outcome
  of resolving that context whenever the instance is not null or \<open>T\<close> has no
  autowireable constructor; in the remaining case the call continues with
  \<open>resolveIfTypeCanBeRegistered\<close> in the state left by that resolution. The engine
  removes no registration: if
  \<open>getOrCreateComponent\<close> leaves the sequence of the key alone, the sequence after the
  call starts with the sequence before it.
\<close>

theorem resolve_last_registered:
  assumes "registrationContexts s (createKeyForType t) = Some rcs" and "rcs \<noteq> []"
  shows "(fst (resolve_rc goc (createKeyForType t) (last rcs)
               (emit (Lookup (createKeyForType t)) s)) \<noteq> Inr None \<or> \<not> aw t
          \<longrightarrow> resolve aw goc t s =
               resolve_rc goc (createKeyForType t) (last rcs)
                 (emit (Lookup (createKeyForType t)) s))
       \<and> (fst (resolve_rc goc (createKeyForType t) (last rcs)
               (emit (Lookup (createKeyForType t)) s)) = Inr None \<and> aw t
          \<longrightarrow> resolve aw goc t s =
               resolveIfTypeCanBeRegistered aw goc t
                 (snd (resolve_rc goc (createKeyForType t) (last rcs)
                         (emit (Lookup (createKeyForType t)) s))))
       \<and> ((\<forall>sc r st. registrationContexts (snd (goc sc (createKeyForType t) r st))
                        (createKeyForType t) = registrationContexts st (createKeyForType t))
          \<longrightarrow> (\<exists>ys. registrationContexts (snd (resolve aw goc t s)) (createKeyForType t)
                      = Some (rcs @ ys)))"
proof -
  let ?k = "createKeyForType t"
  obtain r s1 where run: "resolve_rc goc ?k (last rcs) (emit (Lookup ?k) s) = (r, s1)"
    by (cases "resolve_rc goc ?k (last rcs) (emit (Lookup ?k) s)")
  have eq: "resolve aw goc t s =
     (case r of Inl e \<Rightarrow> (Inl e, s1) | Inr None \<Rightarrow> resolveIfTypeCanBeRegistered aw goc t s1
      | Inr (Some h) \<Rightarrow> (Inr (Some h), s1))"
    using run by (simp add: resolve_registered [OF assms] split: sum.splits option.splits)
  have part1: "r \<noteq> Inr None \<or> \<not> aw t \<longrightarrow> resolve aw goc t s = (r, s1)"
    by (auto simp: eq resolveIfTypeCanBeRegistered_false split: sum.splits option.splits)
  have part2: "\<exists>ys. registrationContexts (snd (resolve aw goc t s)) ?k = Some (rcs @ ys)"
    if frame: "\<forall>sc r st. registrationContexts (snd (goc sc ?k r st)) ?k = registrationContexts st ?k"
  proof -
    have s1: "registrationContexts s1 ?k = Some rcs"
      using resolve_rc_frame [of goc ?k ?k "last rcs" "emit (Lookup ?k) s"] frame run assms(1)
      by simp
    show ?thesis
    proof (cases "r = Inr None \<and> aw t")
      case False
      then have "resolve aw goc t s = (r, s1)" using part1 by blast
      with s1 show ?thesis by simp
    next
      case True
      then have "resolve aw goc t s = resolveIfTypeCanBeRegistered aw goc t s1"
        by (simp add: eq)
      also have "\<dots> = resolve_rc goc ?k (autoContext (scopeId s1) t)
         (s1\<lparr>registrationContexts :=
            scope_addRegistration (scopeId s1) (build t (ConstructorDescriptor t))
              (registrationContexts s1),
          events := events s1 @ [Insert (build t (ConstructorDescriptor t)), Lookup ?k]\<rparr>)"
        using True by (simp add: resolveIfTypeCanBeRegistered_true [of aw t] autoContext_def)
      finally have "registrationContexts (snd (resolve aw goc t s)) ?k =
          Some (rcs @ [autoContext (scopeId s1) t])"
        using frame s1
        by (simp add: resolve_rc_frame [of goc ?k ?k] scope_addRegistration_key autoContext_def)
      then show ?thesis by blast
    qed
  qed
  have part3: "r = Inr None \<and> aw t \<longrightarrow>
      resolve aw goc t s = resolveIfTypeCanBeRegistered aw goc t s1"
    by (simp add: eq)
  from part1 part2 part3 run show ?thesis by simp
qed

text \<open>
  The theorem at a registry with two contexts for type 3: the instance of the second
  one is returned, and both contexts are still registered.
\<close>

theorem resolve_last_registered_witness:
  "registrationContexts (withContexts 3 [userContext 0 3, userContext 1 3]) (createKeyForType 3)
     = Some [userContext 0 3, userContext 1 3]
   \<and> [userContext 0 3, userContext 1 3] \<noteq> []
   \<and> fst (resolve_rc constructing (createKeyForType 3) (last [userContext 0 3, userContext 1 3])
          (emit (Lookup (createKeyForType 3))
             (withContexts 3 [userContext 0 3, userContext 1 3]))) \<noteq> Inr None
   \<and> (\<forall>sc r st. registrationContexts (snd (constructing sc (createKeyForType 3) r st))
                    (createKeyForType 3) = registrationContexts st (createKeyForType 3))
   \<and> fst (resolve everyType constructing 3 (withContexts 3 [userContext 0 3, userContext 1 3]))
       = Inr (Some 1)
   \<and> (\<exists>ys. registrationContexts
              (snd (resolve everyType constructing 3
                      (withContexts 3 [userContext 0 3, userContext 1 3])))
              (createKeyForType 3) = Some ([userContext 0 3, userContext 1 3] @ ys))"
proof -
  let ?st = "withContexts 3 [userContext 0 3, userContext 1 3]"
  have a: "registrationContexts ?st (createKeyForType 3) = Some [userContext 0 3, userContext 1 3]"
    by (simp add: withContexts_def)
  have b: "[userContext 0 3, userContext 1 3] \<noteq> []" by simp
  have c: "fst (resolve_rc constructing (createKeyForType 3) (last [userContext 0 3, userContext 1 3])
          (emit (Lookup (createKeyForType 3)) ?st)) = Inr (Some 1)"
    by (simp add: resolve_rc_fst userContext_def build_def constructing_def)
  have d: "\<forall>sc r st. registrationContexts (snd (constructing sc (createKeyForType 3) r st))
                    (createKeyForType 3) = registrationContexts st (createKeyForType 3)"
    by (simp add: constructing_snd)
  have c': "fst (resolve_rc constructing (createKeyForType 3) (last [userContext 0 3, userContext 1 3])
          (emit (Lookup (createKeyForType 3)) ?st)) \<noteq> Inr None"
    using c by simp
  note inst = resolve_last_registered [OF a b, of constructing everyType]
  from inst c' have "resolve everyType constructing 3 ?st =
      resolve_rc constructing (createKeyForType 3) (last [userContext 0 3, userContext 1 3])
          (emit (Lookup (createKeyForType 3)) ?st)"
    by blast
  with c have e: "fst (resolve everyType constructing 3 ?st) = Inr (Some 1)" by simp
  from inst d have f: "\<exists>ys. registrationContexts (snd (resolve everyType constructing 3 ?st))
              (createKeyForType 3) = Some ([userContext 0 3, userContext 1 3] @ ys)"
    by blast
  from a b c' d e f show ?thesis by blast
qed

text \<open>
  Claim C1 as stated asks for the instance of the last registered context in every case.
  With one context whose factory declines and an autowireable type, the last registered
  context gives a null pointer, yet \<open>resolve< T >()\<close> returns the instance 3 of the
  context that the fallback has registered in the meantime.
\<close>

theorem resolve_last_registered_counterexample:
  "registrationContexts (withContexts 3 [userContext 0 3]) (createKeyForType 3)
     = Some [userContext 0 3]
   \<and> fst (resolve_rc declining (createKeyForType 3) (last [userContext 0 3])
           (emit (Lookup (createKeyForType 3)) (withContexts 3 [userContext 0 3]))) = Inr None
   \<and> fst (resolve everyType declining 3 (withContexts 3 [userContext 0 3])) = Inr (Some 3)"
  by (simp add: withContexts_def s0_def userContext_def declining_def everyType_def
      resolve_def resolve_key_def tryGetRegistrations_def scope_tryGetRegistrations_def
      resolve_rc_def resolveIfTypeCanBeRegistered_def tryToRegisterType_def
      scope_addRegistration_def createKeyForType_def build_def emit_def Let_def)

text \<open>
  Claim C3, as amended. When at least one context is registered, \<open>resolve< T >()\<close>
  returns the instance produced by the last one if it is not null and passes on what it
  raises. A null instance sends the call into \<open>resolveIfTypeCanBeRegistered\<close>, exactly
  as an absent registration does: the fallback is reached after an existing registration
  has produced a null instance, and it returns a null pointer when \<open>T\<close> has no
  autowireable constructor.
\<close>

theorem fallback_after_null_instance:
  assumes "registrationContexts s (createKeyForType t) = Some rcs" and "rcs \<noteq> []"
    and "resolve_rc goc (createKeyForType t) (last rcs) (emit (Lookup (createKeyForType t)) s)
           = (r, s1)"
  shows "(\<forall>h. r = Inr (Some h) \<longrightarrow> resolve aw goc t s = (Inr (Some h), s1))
       \<and> (\<forall>e. r = Inl e \<longrightarrow> resolve aw goc t s = (Inl e, s1))
       \<and> (r = Inr None \<longrightarrow> resolve aw goc t s = resolveIfTypeCanBeRegistered aw goc t s1)
       \<and> (r = Inr None \<and> \<not> aw t \<longrightarrow> resolve aw goc t s = (Inr None, s1))"
  using assms(3)
  by (auto simp: resolve_registered [OF assms(1,2)] resolveIfTypeCanBeRegistered_false)

text \<open>
  The theorem at a registry with two declining contexts for type 5, which has no
  autowireable constructor: the call goes through the fallback and returns null.
\<close>

theorem fallback_after_null_instance_witness:
  "registrationContexts (withContexts 5 [userContext 0 5, userContext 1 5]) (createKeyForType 5)
     = Some [userContext 0 5, userContext 1 5]
   \<and> [userContext 0 5, userContext 1 5] \<noteq> []
   \<and> fst (resolve_rc declining (createKeyForType 5) (last [userContext 0 5, userContext 1 5])
          (emit (Lookup (createKeyForType 5))
             (withContexts 5 [userContext 0 5, userContext 1 5]))) = Inr None
   \<and> \<not> noType 5
   \<and> resolve noType declining 5 (withContexts 5 [userContext 0 5, userContext 1 5]) =
       (Inr None,
        snd (resolve_rc declining (createKeyForType 5) (last [userContext 0 5, userContext 1 5])
          (emit (Lookup (createKeyForType 5))
             (withContexts 5 [userContext 0 5, userContext 1 5]))))"
proof -
  let ?st = "withContexts 5 [userContext 0 5, userContext 1 5]"
  let ?run = "resolve_rc declining (createKeyForType 5) (last [userContext 0 5, userContext 1 5])
          (emit (Lookup (createKeyForType 5)) ?st)"
  have a: "registrationContexts ?st (createKeyForType 5) = Some [userContext 0 5, userContext 1 5]"
    by (simp add: withContexts_def)
  have b: "[userContext 0 5, userContext 1 5] \<noteq> []" by simp
  have c: "fst ?run = Inr None"
    by (simp add: resolve_rc_fst userContext_def build_def declining_def)
  then have d: "?run = (Inr None, snd ?run)" by (simp add: prod_eq_iff)
  have e: "\<not> noType 5" by (simp add: noType_def)
  from fallback_after_null_instance [OF a b d, of noType] a b c e
  show ?thesis by blast
qed

text \<open>
  Claim C3 as stated says that the fallback is never reached after an existing
  registration has produced a null instance. With two declining contexts for an
  autowireable type 5 the lookup finds both, the last one gives null, and the call inserts
  a third context and resolves it.
\<close>

theorem fallback_after_null_instance_counterexample:
  "registrationContexts (withContexts 5 [userContext 0 5, userContext 1 5]) (createKeyForType 5)
     = Some [userContext 0 5, userContext 1 5]
   \<and> fst (resolve_key declining (createKeyForType 5)
           (withContexts 5 [userContext 0 5, userContext 1 5])) = Inr None
   \<and> registrationContexts
        (snd (resolve everyType declining 5 (withContexts 5 [userContext 0 5, userContext 1 5])))
        (createKeyForType 5)
     = Some [userContext 0 5, userContext 1 5, autoContext 0 5]
   \<and> events (snd (resolve everyType declining 5
                    (withContexts 5 [userContext 0 5, userContext 1 5])))
     = [Lookup (createKeyForType 5), NewResolutionContext, Lock,
        GetOrCreate (createKeyForType 5) (userContext 1 5), Unlock, DeleteResolutionContext,
        Insert (build 5 (ConstructorDescriptor 5)), Lookup (createKeyForType 5),
        NewResolutionContext, Lock, GetOrCreate (createKeyForType 5) (autoContext 0 5),
        Unlock, DeleteResolutionContext]"
  by (simp add: withContexts_def s0_def userContext_def autoContext_def declining_def
      everyType_def resolve_def resolve_key_def tryGetRegistrations_def
      scope_tryGetRegistrations_def resolve_rc_def resolveIfTypeCanBeRegistered_def
      tryToRegisterType_def scope_addRegistration_def createKeyForType_def build_def emit_def
      Let_def)

text \<open>
  Claim C10. When the lookup succeeds with an empty sequence, \<open>resolve(typeAliasKey)\<close>
  returns a null pointer and \<open>resolve< T >()\<close> goes on with
  \<open>resolveIfTypeCanBeRegistered\<close>, as it does when the lookup reports nothing: both
  registries give the same result, and for an autowireable type the same final state.
\<close>

theorem empty_lookup_like_no_registration:
  assumes "registrationContexts s (createKeyForType t) = Some []"
  shows "resolve_key goc (createKeyForType t) s = (Inr None, emit (Lookup (createKeyForType t)) s)
       \<and> resolve aw goc t s =
           resolveIfTypeCanBeRegistered aw goc t (emit (Lookup (createKeyForType t)) s)
       \<and> resolve aw goc t (s\<lparr>registrationContexts := (registrationContexts s)(createKeyForType t := None)\<rparr>) =
           resolveIfTypeCanBeRegistered aw goc t (emit (Lookup (createKeyForType t))
             (s\<lparr>registrationContexts := (registrationContexts s)(createKeyForType t := None)\<rparr>))
       \<and> fst (resolve aw goc t s) =
           fst (resolve aw goc t
                  (s\<lparr>registrationContexts := (registrationContexts s)(createKeyForType t := None)\<rparr>))
       \<and> (aw t \<longrightarrow> resolve aw goc t s =
             resolve aw goc t
               (s\<lparr>registrationContexts := (registrationContexts s)(createKeyForType t := None)\<rparr>))"
proof -
  let ?k = "createKeyForType t"
  let ?s' = "s\<lparr>registrationContexts := (registrationContexts s)(?k := None)\<rparr>"
  have a: "resolve_key goc ?k s = (Inr None, emit (Lookup ?k) s)"
    using assms by (rule resolve_key_Nil)
  have b: "resolve aw goc t s = resolveIfTypeCanBeRegistered aw goc t (emit (Lookup ?k) s)"
    by (simp add: resolve_def a)
  have c: "resolve aw goc t ?s' = resolveIfTypeCanBeRegistered aw goc t (emit (Lookup ?k) ?s')"
    by (simp add: resolve_def resolve_key_None)
  have d: "resolve aw goc t s = resolve aw goc t ?s'" if "aw t"
  proof -
    have "resolve aw goc t s = resolve_rc goc ?k (autoContext (scopeId s) t)
       (s\<lparr>registrationContexts := (registrationContexts s)(?k \<mapsto> [autoContext (scopeId s) t]),
          events := events s @ [Lookup ?k, Insert (build t (ConstructorDescriptor t)), Lookup ?k]\<rparr>)"
      using resolve_unregistered_autowireable [of aw t s goc] that assms
      by (simp add: autoContext_def)
    moreover have "resolve aw goc t ?s' = resolve_rc goc ?k (autoContext (scopeId s) t)
       (?s'\<lparr>registrationContexts := (registrationContexts ?s')(?k \<mapsto> [autoContext (scopeId s) t]),
          events := events ?s' @ [Lookup ?k, Insert (build t (ConstructorDescriptor t)), Lookup ?k]\<rparr>)"
      using resolve_unregistered_autowireable [of aw t ?s' goc] that
      by (simp add: autoContext_def)
    ultimately show ?thesis by simp
  qed
  have e: "fst (resolve aw goc t s) = fst (resolve aw goc t ?s')"
  proof (cases "aw t")
    case True
    with d show ?thesis by simp
  next
    case False
    then show ?thesis by (simp add: b c resolveIfTypeCanBeRegistered_false)
  qed
  from a b c d e show ?thesis by blast
qed

theorem empty_lookup_like_no_registration_witness:
  "registrationContexts (withContexts 4 []) (createKeyForType 4) = Some []
   \<and> everyType 4
   \<and> resolve_key constructing (createKeyForType 4) (withContexts 4 []) =
       (Inr None, emit (Lookup (createKeyForType 4)) (withContexts 4 []))
   \<and> resolve everyType constructing 4 (withContexts 4 []) =
       resolve everyType constructing 4
         ((withContexts 4 [])\<lparr>registrationContexts :=
            (registrationContexts (withContexts 4 []))(createKeyForType 4 := None)\<rparr>)"
proof -
  have a: "registrationContexts (withContexts 4 []) (createKeyForType 4) = Some []"
    by (simp add: withContexts_def)
  have b: "everyType 4" by (simp add: everyType_def)
  from empty_lookup_like_no_registration [of "withContexts 4 []" 4 constructing everyType] a b
  show ?thesis by blast
qed

text \<open>
  Claim C4. For a type without a registration for its key and without an autowireable
  constructor, \<open>resolve< T >()\<close> returns a null pointer as its value: nothing is
  raised, and the state is left as it was but for the lookup.
\<close>

theorem resolve_not_registered:
  assumes "registrationContexts s (createKeyForType t) = None
           \<or> registrationContexts s (createKeyForType t) = Some []"
    and "\<not> aw t"
  shows "resolve aw goc t s = (Inr None, emit (Lookup (createKeyForType t)) s)"
  using assms
  by (auto simp: resolve_def resolve_key_None resolve_key_Nil resolveIfTypeCanBeRegistered_false)

theorem resolve_not_registered_witness:
  "registrationContexts (withContexts 4 []) (createKeyForType 4) = Some []
   \<and> \<not> noType 4
   \<and> resolve noType constructing 4 (withContexts 4 []) =
       (Inr None, emit (Lookup (createKeyForType 4)) (withContexts 4 []))"
proof -
  have a: "registrationContexts (withContexts 4 []) (createKeyForType 4) = Some []"
    by (simp add: withContexts_def)
  have b: "\<not> noType 4" by (simp add: noType_def)
  from resolve_not_registered [of "withContexts 4 []" 4 noType constructing] a b
  show ?thesis by simp
qed

section \<open>Plural resolution\<close>

lemma resolveAll_rcs_Inr:
  "resolveAll_rcs goc k rcs acc s = (Inr v, s') \<Longrightarrow>
     \<exists>w. v = acc @ w \<and> length w = length rcs \<and>
       (\<forall>i<length rcs.
          fst (resolve_rc goc k (rcs ! i) (stateBefore goc k rcs i s)) = Inr (w ! i))"
proof (induction rcs arbitrary: acc s)
  case Nil
  then show ?case by simp
next
  case (Cons rc rcs)
  obtain r s1 where step: "resolve_rc goc k rc s = (r, s1)"
    by (cases "resolve_rc goc k rc s")
  show ?case
  proof (cases r)
    case (Inl e)
    with Cons.prems step show ?thesis by simp
  next
    case (Inr inst)
    with Cons.prems step have "resolveAll_rcs goc k rcs (acc @ [inst]) s1 = (Inr v, s')"
      by simp
    from Cons.IH [OF this] obtain w where w: "v = (acc @ [inst]) @ w" "length w = length rcs"
      "\<forall>i<length rcs. fst (resolve_rc goc k (rcs ! i) (stateBefore goc k rcs i s1)) = Inr (w ! i)"
      by blast
    have "\<forall>i<length (rc # rcs).
            fst (resolve_rc goc k ((rc # rcs) ! i) (stateBefore goc k (rc # rcs) i s))
              = Inr ((inst # w) ! i)"
    proof (intro allI impI)
      fix i assume "i < length (rc # rcs)"
      then show "fst (resolve_rc goc k ((rc # rcs) ! i) (stateBefore goc k (rc # rcs) i s))
              = Inr ((inst # w) ! i)"
        using w(3) step Inr by (cases i) simp_all
    qed
    with w(1,2) show ?thesis by (intro exI [of _ "inst # w"]) simp
  qed
qed

lemma resolveAll_rcs_Inl:
  "resolveAll_rcs goc k rcs acc s = (Inl e, s') \<Longrightarrow>
     \<exists>i<length rcs. fst (resolve_rc goc k (rcs ! i) (stateBefore goc k rcs i s)) = Inl e"
proof (induction rcs arbitrary: acc s)
  case Nil
  then show ?case by simp
next
  case (Cons rc rcs)
  obtain r s1 where step: "resolve_rc goc k rc s = (r, s1)"
    by (cases "resolve_rc goc k rc s")
  show ?case
  proof (cases r)
    case (Inl e')
    with Cons.prems step have "e' = e" by simp
    with step Inl have "fst (resolve_rc goc k ((rc # rcs) ! 0) (stateBefore goc k (rc # rcs) 0 s)) = Inl e"
      by simp
    then show ?thesis by blast
  next
    case (Inr inst)
    with Cons.prems step have "resolveAll_rcs goc k rcs (acc @ [inst]) s1 = (Inl e, s')"
      by simp
    from Cons.IH [OF this] obtain i where i: "i < length rcs"
      "fst (resolve_rc goc k (rcs ! i) (stateBefore goc k rcs i s1)) = Inl e"
      by blast
    then have "Suc i < length (rc # rcs)"
      "fst (resolve_rc goc k ((rc # rcs) ! Suc i) (stateBefore goc k (rc # rcs) (Suc i) s)) = Inl e"
      using step by simp_all
    then show ?thesis by blast
  qed
qed

text \<open>
  Claim C2. \<open>resolveAll< T >()\<close> resolves every context registered for the key of
  \<open>T\<close>, in registration order: when it returns, it returns as many instances as there
  are contexts, and the instance of index \<open>i\<close> is the one produced by resolving the
  context of index \<open>i\<close> in the state left by the resolutions before it. It raises only
  what one of these resolutions raises.
\<close>

theorem resolveAll_in_registration_order:
  "case resolveAll goc t s of
     (Inr v, s') \<Rightarrow>
       length v = length (registered s (createKeyForType t)) \<and>
       (\<forall>i<length (registered s (createKeyForType t)).
          fst (resolve_rc goc (createKeyForType t) (registered s (createKeyForType t) ! i)
                 (stateBefore goc (createKeyForType t) (registered s (createKeyForType t)) i
                    (emit (Lookup (createKeyForType t)) s))) = Inr (v ! i))
   | (Inl e, s') \<Rightarrow>
       (\<exists>i<length (registered s (createKeyForType t)).
          fst (resolve_rc goc (createKeyForType t) (registered s (createKeyForType t) ! i)
                 (stateBefore goc (createKeyForType t) (registered s (createKeyForType t)) i
                    (emit (Lookup (createKeyForType t)) s))) = Inl e)"
proof -
  obtain r s' where run: "resolveAll goc t s = (r, s')"
    by (cases "resolveAll goc t s")
  show ?thesis
  proof (cases r)
    case (Inl e)
    with run resolveAll_rcs_Inl [of goc "createKeyForType t" _ "[]" _ e s']
    show ?thesis by (simp add: resolveAll_registered)
  next
    case (Inr v)
    with run resolveAll_rcs_Inr [of goc "createKeyForType t" _ "[]" _ v s']
    show ?thesis by (auto simp: resolveAll_registered)
  qed
qed

theorem resolveAll_in_registration_order_witness:
  "length (registered (withContexts 3 [userContext 0 3, userContext 2 3]) (createKeyForType 3)) = 2
   \<and> fst (resolveAll constructing 3 (withContexts 3 [userContext 0 3, userContext 2 3]))
       = Inr [Some 0, Some 2]
   \<and> fst (resolve_rc constructing (createKeyForType 3) ([userContext 0 3, userContext 2 3] ! 0)
          (stateBefore constructing (createKeyForType 3) [userContext 0 3, userContext 2 3] 0
             (emit (Lookup (createKeyForType 3))
                (withContexts 3 [userContext 0 3, userContext 2 3]))))
       = Inr ([Some 0, Some 2] ! 0)
   \<and> fst (resolve_rc constructing (createKeyForType 3) ([userContext 0 3, userContext 2 3] ! 1)
          (stateBefore constructing (createKeyForType 3) [userContext 0 3, userContext 2 3] 1
             (emit (Lookup (createKeyForType 3))
                (withContexts 3 [userContext 0 3, userContext 2 3]))))
       = Inr ([Some 0, Some 2] ! 1)"
proof -
  let ?st = "withContexts 3 [userContext 0 3, userContext 2 3]"
  have a: "registered ?st (createKeyForType 3) = [userContext 0 3, userContext 2 3]"
    by (simp add: registered_def withContexts_def)
  have "fst (resolveAll constructing 3 ?st) = Inr [Some 0, Some 2]"
    by (simp add: run_simps)
  then obtain s' where b: "resolveAll constructing 3 ?st = (Inr [Some 0, Some 2], s')"
    by (cases "resolveAll constructing 3 ?st") simp
  from resolveAll_in_registration_order [where goc = constructing and t = 3 and s = ?st]
  have all: "\<forall>i<2. fst (resolve_rc constructing (createKeyForType 3)
                 ([userContext 0 3, userContext 2 3] ! i)
                 (stateBefore constructing (createKeyForType 3)
                    [userContext 0 3, userContext 2 3] i
                    (emit (Lookup (createKeyForType 3)) ?st)))
              = Inr ([Some 0, Some 2] ! i)"
    by (simp add: a b)
  have c: "(0::nat) < 2" and d: "(1::nat) < 2" by simp_all
  from all c have e: "fst (resolve_rc constructing (createKeyForType 3)
                 ([userContext 0 3, userContext 2 3] ! 0)
                 (stateBefore constructing (createKeyForType 3)
                    [userContext 0 3, userContext 2 3] 0
                    (emit (Lookup (createKeyForType 3)) ?st)))
              = Inr ([Some 0, Some 2] ! 0)"
    by blast
  from all d have f: "fst (resolve_rc constructing (createKeyForType 3)
                 ([userContext 0 3, userContext 2 3] ! 1)
                 (stateBefore constructing (createKeyForType 3)
                    [userContext 0 3, userContext 2 3] 1
                    (emit (Lookup (createKeyForType 3)) ?st)))
              = Inr ([Some 0, Some 2] ! 1)"
    by blast
  from a b e f show ?thesis by simp
qed

text \<open>
  Claim C7. For a type without a registration for its key, \<open>resolveAll< T >()\<close>
  returns the empty sequence. It looks the key up and does nothing else: the registry is
  unchanged, nothing is registered and no factory runs.
\<close>

theorem resolveAll_not_registered:
  assumes "registrationContexts s (createKeyForType t) = None
           \<or> registrationContexts s (createKeyForType t) = Some []"
  shows "resolveAll goc t s = (Inr [], emit (Lookup (createKeyForType t)) s)"
  using assms
  by (auto simp: resolveAll_def resolveAll_key_def tryGetRegistrations_None
      tryGetRegistrations_Some)

theorem resolveAll_not_registered_witness:
  "registrationContexts s0 (createKeyForType 4) = None
   \<and> resolveAll constructing 4 s0 = (Inr [], emit (Lookup (createKeyForType 4)) s0)
   \<and> registrationContexts (snd (resolveAll constructing 4 s0)) = registrationContexts s0"
proof -
  have a: "registrationContexts s0 (createKeyForType 4) = None" by (simp add: s0_def)
  from resolveAll_not_registered [of s0 4 constructing] a show ?thesis by simp
qed

section \<open>Lazy registration\<close>

text \<open>
  Claim C5. For an autowireable type without a registration for its key,
  \<open>resolve< T >()\<close> inserts one registration and resolves it, once: the call is the
  resolution of the inserted context in the registry that holds it alone, and what that
  resolution gives, a null pointer included, is what the call gives. When the lifetime
  scope changes nothing itself, the call ends with that one context registered and with
  one insertion and one call of \<open>getOrCreateComponent\<close> among its effects.
\<close>

theorem resolve_registers_and_retries_once:
  assumes "aw t"
    and "registrationContexts s (createKeyForType t) = None
         \<or> registrationContexts s (createKeyForType t) = Some []"
  shows "resolve aw goc t s =
           resolve_rc goc (createKeyForType t) (autoContext (scopeId s) t)
             (s\<lparr>registrationContexts := (registrationContexts s)(createKeyForType t \<mapsto>
                  [autoContext (scopeId s) t]),
                events := events s @ [Lookup (createKeyForType t),
                                      Insert (build t (ConstructorDescriptor t)),
                                      Lookup (createKeyForType t)]\<rparr>)
       \<and> ((\<forall>sc r st. snd (goc sc (createKeyForType t) r st) = st) \<longrightarrow>
            registrationContexts (snd (resolve aw goc t s)) =
              (registrationContexts s)(createKeyForType t \<mapsto> [autoContext (scopeId s) t])
          \<and> events (snd (resolve aw goc t s)) =
              events s @ [Lookup (createKeyForType t), Insert (build t (ConstructorDescriptor t)),
                Lookup (createKeyForType t), NewResolutionContext, Lock,
                GetOrCreate (createKeyForType t) (autoContext (scopeId s) t),
                Unlock, DeleteResolutionContext])"
proof -
  let ?k = "createKeyForType t"
  let ?rc = "autoContext (scopeId s) t"
  let ?s2 = "s\<lparr>registrationContexts := (registrationContexts s)(?k \<mapsto> [?rc]),
               events := events s @ [Lookup ?k, Insert (build t (ConstructorDescriptor t)),
                                     Lookup ?k]\<rparr>"
  have run: "resolve aw goc t s = resolve_rc goc ?k ?rc ?s2"
    using resolve_unregistered_autowireable [of aw t s goc] assms by (simp add: autoContext_def)
  have quiet: "registrationContexts (snd (resolve aw goc t s)) = (registrationContexts s)(?k \<mapsto> [?rc])
          \<and> events (snd (resolve aw goc t s)) =
              events s @ [Lookup ?k, Insert (build t (ConstructorDescriptor t)),
                Lookup ?k, NewResolutionContext, Lock, GetOrCreate ?k ?rc,
                Unlock, DeleteResolutionContext]"
    if quiet: "\<forall>sc r st. snd (goc sc ?k r st) = st"
  proof -
    let ?s3 = "emit (GetOrCreate ?k ?rc) (emit Lock (emit NewResolutionContext ?s2))"
    from quiet have "snd (goc (scope ?rc) ?k (registration ?rc) ?s3) = ?s3"
      by blast
    then have "snd (resolve_rc goc ?k ?rc ?s2) = emit DeleteResolutionContext (emit Unlock ?s3)"
      by (simp add: resolve_rc_snd)
    then show ?thesis by (simp add: run emit_def)
  qed
  from run quiet show ?thesis by blast
qed

theorem resolve_registers_and_retries_once_witness:
  "everyType 3
   \<and> registrationContexts s0 (createKeyForType 3) = None
   \<and> (\<forall>sc r st. snd (declining sc (createKeyForType 3) r st) = st)
   \<and> fst (resolve everyType declining 3 s0) = Inr (Some 3)
   \<and> registrationContexts (snd (resolve everyType declining 3 s0)) (createKeyForType 3)
       = Some [autoContext 0 3]
   \<and> events (snd (resolve everyType declining 3 s0)) =
       [Lookup (createKeyForType 3), Insert (build 3 (ConstructorDescriptor 3)),
        Lookup (createKeyForType 3), NewResolutionContext, Lock,
        GetOrCreate (createKeyForType 3) (autoContext 0 3), Unlock, DeleteResolutionContext]"
proof -
  have a: "everyType 3" by (simp add: everyType_def)
  have b: "registrationContexts s0 (createKeyForType 3) = None" by (simp add: s0_def)
  have c: "\<forall>sc r st. snd (declining sc (createKeyForType 3) r st) = st"
    by (simp add: declining_snd)
  have d: "fst (resolve everyType declining 3 s0) = Inr (Some 3)"
    by (simp add: run_simps)
  from a b have ab: "registrationContexts s0 (createKeyForType 3) = None
      \<or> registrationContexts s0 (createKeyForType 3) = Some []"
    by simp
  from resolve_registers_and_retries_once [of everyType 3 s0 declining, OF a ab] c
  have "registrationContexts (snd (resolve everyType declining 3 s0)) =
              (registrationContexts s0)(createKeyForType 3 \<mapsto> [autoContext (scopeId s0) 3])
          \<and> events (snd (resolve everyType declining 3 s0)) =
              events s0 @ [Lookup (createKeyForType 3), Insert (build 3 (ConstructorDescriptor 3)),
                Lookup (createKeyForType 3), NewResolutionContext, Lock,
                GetOrCreate (createKeyForType 3) (autoContext (scopeId s0) 3),
                Unlock, DeleteResolutionContext]"
    by blast
  then have e: "registrationContexts (snd (resolve everyType declining 3 s0)) (createKeyForType 3)
       = Some [autoContext 0 3]
   \<and> events (snd (resolve everyType declining 3 s0)) =
       [Lookup (createKeyForType 3), Insert (build 3 (ConstructorDescriptor 3)),
        Lookup (createKeyForType 3), NewResolutionContext, Lock,
        GetOrCreate (createKeyForType 3) (autoContext 0 3), Unlock, DeleteResolutionContext]"
    by (simp add: s0_def)
  from a b c d e show ?thesis by blast
qed

text \<open>
  Claim C6, as amended. Let \<open>C\<close> be an autowireable type without a registration, and
  let the lifetime scope leave the sequence of the key of \<open>C\<close> alone. After a first
  \<open>resolve< C >()\<close> that gives an instance, exactly one context is registered for
  \<open>C\<close>. From every state with that one context, \<open>resolveAll< C >()\<close> leaves it
  the only one and returns exactly one instance, and \<open>resolve< C >()\<close> leaves it the
  only one whenever resolving it gives an instance or raises. A later
  \<open>resolve< C >()\<close> for which it gives a null pointer registers \<open>C\<close> a second time.
\<close>

theorem auto_registration_repeats_only_on_null:
  assumes aw: "aw t"
    and none: "registrationContexts s (createKeyForType t) = None
               \<or> registrationContexts s (createKeyForType t) = Some []"
    and frame: "\<forall>sc r st. registrationContexts (snd (goc sc (createKeyForType t) r st))
                  (createKeyForType t) = registrationContexts st (createKeyForType t)"
    and first: "resolve aw goc t s = (Inr (Some h), s1)"
  shows "registrationContexts s1 (createKeyForType t) = Some [autoContext (scopeId s) t]
       \<and> (\<forall>st. registrationContexts st (createKeyForType t) = Some [autoContext (scopeId s) t]
            \<longrightarrow> registrationContexts (snd (resolveAll goc t st)) (createKeyForType t)
                   = Some [autoContext (scopeId s) t]
              \<and> (\<forall>v. fst (resolveAll goc t st) = Inr v \<longrightarrow> length v = 1)
              \<and> (fst (resolve_rc goc (createKeyForType t) (autoContext (scopeId s) t)
                         (emit (Lookup (createKeyForType t)) st)) \<noteq> Inr None
                  \<longrightarrow> registrationContexts (snd (resolve aw goc t st)) (createKeyForType t)
                        = Some [autoContext (scopeId s) t])
              \<and> (fst (resolve_rc goc (createKeyForType t) (autoContext (scopeId s) t)
                         (emit (Lookup (createKeyForType t)) st)) = Inr None
                  \<longrightarrow> registrationContexts (snd (resolve aw goc t st)) (createKeyForType t)
                        = Some [autoContext (scopeId s) t,
                                autoContext
                                  (scopeId (snd (resolve_rc goc (createKeyForType t)
                                     (autoContext (scopeId s) t)
                                     (emit (Lookup (createKeyForType t)) st)))) t]))"
proof -
  let ?k = "createKeyForType t"
  let ?rc = "autoContext (scopeId s) t"
  have rcframe: "registrationContexts (snd (resolve_rc goc ?k rc st)) ?k = registrationContexts st ?k"
    for rc st
    using frame by (simp add: resolve_rc_frame [of goc ?k ?k])
  have "resolve aw goc t s = resolve_rc goc ?k ?rc
       (s\<lparr>registrationContexts := (registrationContexts s)(?k \<mapsto> [?rc]),
          events := events s @ [Lookup ?k, Insert (build t (ConstructorDescriptor t)), Lookup ?k]\<rparr>)"
    using resolve_unregistered_autowireable [of aw t s goc] aw none by (simp add: autoContext_def)
  then have "registrationContexts (snd (resolve aw goc t s)) ?k = Some [?rc]"
    by (simp add: rcframe)
  with first have one: "registrationContexts s1 ?k = Some [?rc]" by simp
  have later: "registrationContexts (snd (resolveAll goc t st)) ?k = Some [?rc]
              \<and> (\<forall>v. fst (resolveAll goc t st) = Inr v \<longrightarrow> length v = 1)
              \<and> (fst (resolve_rc goc ?k ?rc (emit (Lookup ?k) st)) \<noteq> Inr None
                  \<longrightarrow> registrationContexts (snd (resolve aw goc t st)) ?k = Some [?rc])
              \<and> (fst (resolve_rc goc ?k ?rc (emit (Lookup ?k) st)) = Inr None
                  \<longrightarrow> registrationContexts (snd (resolve aw goc t st)) ?k
                        = Some [?rc, autoContext
                             (scopeId (snd (resolve_rc goc ?k ?rc (emit (Lookup ?k) st)))) t])"
    if st: "registrationContexts st ?k = Some [?rc]" for st
  proof -
    obtain r s2 where run: "resolve_rc goc ?k ?rc (emit (Lookup ?k) st) = (r, s2)"
      by (cases "resolve_rc goc ?k ?rc (emit (Lookup ?k) st)")
    have s2: "registrationContexts s2 ?k = Some [?rc]"
      using rcframe [of ?rc "emit (Lookup ?k) st"] run st by simp
    have eq: "resolve aw goc t st =
       (case r of Inl e \<Rightarrow> (Inl e, s2) | Inr None \<Rightarrow> resolveIfTypeCanBeRegistered aw goc t s2
        | Inr (Some h) \<Rightarrow> (Inr (Some h), s2))"
      using resolve_registered [of st t "[?rc]" aw goc] st run
      by (simp split: sum.splits option.splits)
    have a: "registrationContexts (snd (resolve aw goc t st)) ?k = Some [?rc]"
      if "r \<noteq> Inr None"
      using that s2 by (auto simp: eq split: sum.splits option.splits)
    have b: "registrationContexts (snd (resolve aw goc t st)) ?k
               = Some [?rc, autoContext (scopeId s2) t]"
      if "r = Inr None"
    proof -
      from that have "resolve aw goc t st = resolveIfTypeCanBeRegistered aw goc t s2"
        by (simp add: eq)
      then show ?thesis
        using aw s2
        by (simp add: resolveIfTypeCanBeRegistered_true [of aw t] rcframe
            scope_addRegistration_key autoContext_def)
    qed
    have all: "resolveAll goc t st =
        (case r of Inl e \<Rightarrow> (Inl e, s2) | Inr i \<Rightarrow> (Inr [i], s2))"
      using st run by (simp add: resolveAll_registered registered_def split: sum.splits)
    from all s2 have c: "registrationContexts (snd (resolveAll goc t st)) ?k = Some [?rc]"
      by (simp split: sum.splits)
    from all have d: "\<forall>v. fst (resolveAll goc t st) = Inr v \<longrightarrow> length v = 1"
      by (auto split: sum.splits)
    from a b c d run show ?thesis by simp
  qed
  from one later show ?thesis by blast
qed

text \<open>
  The theorem at a fresh engine whose factories always produce: one context after the
  first call, still one after a second call and after \<open>resolveAll< C >()\<close>, which
  returns one instance.
\<close>

theorem auto_registration_repeats_only_on_null_witness:
  "everyType 3
   \<and> registrationContexts s0 (createKeyForType 3) = None
   \<and> (\<forall>sc r st. registrationContexts (snd (constructing sc (createKeyForType 3) r st))
                  (createKeyForType 3) = registrationContexts st (createKeyForType 3))
   \<and> resolve everyType constructing 3 s0 =
       (Inr (Some 3), snd (resolve everyType constructing 3 s0))
   \<and> registrationContexts (snd (resolve everyType constructing 3 s0)) (createKeyForType 3)
       = Some [autoContext (scopeId s0) 3]
   \<and> fst (resolve_rc constructing (createKeyForType 3) (autoContext (scopeId s0) 3)
          (emit (Lookup (createKeyForType 3)) (snd (resolve everyType constructing 3 s0))))
       \<noteq> Inr None
   \<and> registrationContexts
        (snd (resolve everyType constructing 3 (snd (resolve everyType constructing 3 s0))))
        (createKeyForType 3) = Some [autoContext (scopeId s0) 3]
   \<and> registrationContexts
        (snd (resolveAll constructing 3 (snd (resolve everyType constructing 3 s0))))
        (createKeyForType 3) = Some [autoContext (scopeId s0) 3]
   \<and> fst (resolveAll constructing 3 (snd (resolve everyType constructing 3 s0))) = Inr [Some 3]
   \<and> length [Some (3::nat)] = 1"
proof -
  let ?s1 = "snd (resolve everyType constructing 3 s0)"
  have a: "everyType 3" by (simp add: everyType_def)
  have b: "registrationContexts s0 (createKeyForType 3) = None" by (simp add: s0_def)
  then have b': "registrationContexts s0 (createKeyForType 3) = None
               \<or> registrationContexts s0 (createKeyForType 3) = Some []" by simp
  have c: "\<forall>sc r st. registrationContexts (snd (constructing sc (createKeyForType 3) r st))
                  (createKeyForType 3) = registrationContexts st (createKeyForType 3)"
    by (simp add: constructing_snd)
  have "fst (resolve everyType constructing 3 s0) = Inr (Some 3)"
    by (simp add: run_simps)
  then have e: "resolve everyType constructing 3 s0 = (Inr (Some 3), ?s1)"
    by (simp add: prod_eq_iff)
  have d: "fst (resolve_rc constructing (createKeyForType 3) (autoContext (scopeId s0) 3)
          (emit (Lookup (createKeyForType 3)) ?s1)) \<noteq> Inr None"
    by (simp add: resolve_rc_fst constructing_fst)
  note inst = auto_registration_repeats_only_on_null [OF a b' c e]
  from inst have one: "registrationContexts ?s1 (createKeyForType 3)
      = Some [autoContext (scopeId s0) 3]"
    by blast
  from inst one d have later:
    "registrationContexts (snd (resolve everyType constructing 3 ?s1)) (createKeyForType 3)
       = Some [autoContext (scopeId s0) 3]
     \<and> registrationContexts (snd (resolveAll constructing 3 ?s1)) (createKeyForType 3)
       = Some [autoContext (scopeId s0) 3]
     \<and> (\<forall>v. fst (resolveAll constructing 3 ?s1) = Inr v \<longrightarrow> length v = 1)"
    by blast
  have f: "fst (resolveAll constructing 3 ?s1) = Inr [Some 3]"
    by (simp add: run_simps)
  with later have g: "length [Some (3::nat)] = 1" by blast
  from a b c d e one later f g show ?thesis by blast
qed

text \<open>
  Claim C6 as stated says that no later \<open>resolve< C >()\<close> inserts the registration
  again. With factories that produce once and then decline, the first call registers type
  3 and gives its instance; the second call gets a null pointer from that registration,
  registers the type again, and \<open>resolveAll< C >()\<close> then returns two entries.
\<close>

lemmas once_simps = fresh_def onceOnly_def autoContext_def everyType_def
  resolve_def resolve_key_def resolveAll_def resolveAll_key_def tryGetRegistrations_def
  scope_tryGetRegistrations_def resolve_rc_def resolveIfTypeCanBeRegistered_def
  tryToRegisterType_def scope_addRegistration_def createKeyForType_def build_def emit_def
  Let_def

theorem auto_registration_at_most_once_counterexample:
  "everyType 3
   \<and> registrationContexts fresh (createKeyForType 3) = None
   \<and> fst (resolve everyType onceOnly 3 fresh) = Inr (Some 3)
   \<and> registrationContexts (snd (resolve everyType onceOnly 3 fresh)) (createKeyForType 3)
       = Some [autoContext 0 3]
   \<and> fst (resolve everyType onceOnly 3 (snd (resolve everyType onceOnly 3 fresh))) = Inr None
   \<and> registrationContexts
        (snd (resolve everyType onceOnly 3 (snd (resolve everyType onceOnly 3 fresh))))
        (createKeyForType 3)
       = Some [autoContext 0 3, autoContext 0 3]
   \<and> fst (resolveAll onceOnly 3
            (snd (resolve everyType onceOnly 3 (snd (resolve everyType onceOnly 3 fresh)))))
       = Inr [None, None]"
  by (simp add: once_simps)

section \<open>The mutex and the resolution contexts\<close>

text \<open>
  Claim C8, as amended. The recursive mutex of the \<open>ComponentContext\<close> is held
  around every call of \<open>getOrCreateComponent\<close> and released as often as it is
  acquired, whatever the number of holds at the start of \<open>resolve< T >()\<close> or
  \<open>resolveAll< T >()\<close>, provided the effects of \<open>getOrCreateComponent\<close> itself keep
  that discipline. It is acquired after the context has been selected: the lookup of the
  key is the first effect of both functions. The engine does not acquire it for the
  insertion of the fallback: for an autowireable type without
  a registration the first two effects of \<open>resolve< T >()\<close> are the lookup and the
  insertion, which therefore happens with the mutex free in a call entered with the mutex
  free.
\<close>

theorem mutex_held_around_getOrCreateComponent:
  assumes "\<forall>sc k r st. \<exists>es. events (snd (goc sc k r st)) = events st @ es \<and> lockedRun es"
  shows "(\<exists>es. events (snd (resolve aw goc t s)) = events s @ es
            \<and> underMutex needsMutex d es \<and> foldl held d es = d
            \<and> take 1 es = [Lookup (createKeyForType t)]
            \<and> (aw t \<and> registered s (createKeyForType t) = [] \<longrightarrow>
                 take 2 es = [Lookup (createKeyForType t), Insert (build t (ConstructorDescriptor t))]
                 \<and> \<not> underMutex inserts 0 es))
       \<and> (\<exists>es. events (snd (resolveAll goc t s)) = events s @ es
            \<and> underMutex needsMutex d es \<and> foldl held d es = d
            \<and> take 1 es = [Lookup (createKeyForType t)])"
proof -
  let ?Q = "\<lambda>es. \<forall>d. underMutex needsMutex d es \<and> foldl held d es = d"
  from assms have appends: "\<forall>sc k r st. \<exists>es. events (snd (goc sc k r st)) = events st @ es"
    by blast
  have bracket: "?Q ([NewResolutionContext, Lock, GetOrCreate k rc] @ es
                     @ [Unlock, DeleteResolutionContext])" if "lockedRun es" for k rc es
    using lockedRun_any [OF that] by (simp add: underMutex_append needsMutex_def)
  have app: "?Q (xs @ ys)" if "?Q xs" "?Q ys" for xs ys
    using that by (simp add: underMutex_append)
  have nil: "?Q []" by simp
  have lookup: "?Q [Lookup k]" for k by (simp add: needsMutex_def)
  have insert: "?Q [Insert r]" for r by (simp add: needsMutex_def)
  from resolve_trace [where Q = ?Q and G = lockedRun, OF assms bracket app nil lookup insert,
      of aw t s]
  obtain es where es: "events (snd (resolve aw goc t s)) = events s @ es" "?Q es"
    by blast
  have fallback: "take 2 es = [Lookup (createKeyForType t), Insert (build t (ConstructorDescriptor t))]
                 \<and> \<not> underMutex inserts 0 es"
    if "aw t" "registered s (createKeyForType t) = []"
  proof -
    let ?k = "createKeyForType t"
    let ?r = "build t (ConstructorDescriptor t)"
    from that(2) have none: "registrationContexts s ?k = None \<or> registrationContexts s ?k = Some []"
      by (simp add: registered_def split: option.splits)
    let ?s2 = "s\<lparr>registrationContexts := (registrationContexts s)(?k \<mapsto>
            [\<lparr>registration = ?r, scope = scopeId s\<rparr>]),
          events := events s @ [Lookup ?k, Insert ?r, Lookup ?k]\<rparr>"
    let ?rc = "\<lparr>registration = ?r, scope = scopeId s\<rparr>"
    have run: "resolve aw goc t s = resolve_rc goc ?k ?rc ?s2"
      using resolve_unregistered_autowireable [of aw t s goc] that(1) none by simp
    from assms obtain es' where "events (snd (goc (scope ?rc) ?k (registration ?rc)
         (emit (GetOrCreate ?k ?rc) (emit Lock (emit NewResolutionContext ?s2)))))
       = events (emit (GetOrCreate ?k ?rc) (emit Lock (emit NewResolutionContext ?s2))) @ es'"
      by blast
    then have "events (snd (resolve aw goc t s)) =
        events s @ (Lookup ?k # Insert ?r # Lookup ?k # NewResolutionContext # Lock
                    # GetOrCreate ?k ?rc # es' @ [Unlock, DeleteResolutionContext])"
      unfolding run resolve_rc_events by simp
    with es(1) have "es = Lookup ?k # Insert ?r # Lookup ?k # NewResolutionContext # Lock
                    # GetOrCreate ?k ?rc # es' @ [Unlock, DeleteResolutionContext]"
      by simp
    then show ?thesis by simp
  qed
  from resolveAll_trace [where Q = ?Q and G = lockedRun, OF assms bracket app nil lookup,
      of t s]
  obtain es2 where es2: "events (snd (resolveAll goc t s)) = events s @ es2" "?Q es2"
    by blast
  from resolve_first_effect [OF appends, of aw t s] es(1)
  have first: "take 1 es = [Lookup (createKeyForType t)]"
    by auto
  from resolveAll_first_effect [OF appends, of t s] es2(1)
  have first2: "take 1 es2 = [Lookup (createKeyForType t)]"
    by auto
  from es fallback first es2 first2 show ?thesis by blast
qed

text \<open>
  The theorem with a factory that calls back into the engine and the mutex free at the
  start.
\<close>

theorem mutex_held_around_getOrCreateComponent_witness:
  "(\<forall>sc k r st. \<exists>es. events (snd (dependent sc k r st)) = events st @ es \<and> lockedRun es)
   \<and> everyType 7 \<and> registered twoTypes (createKeyForType 7) = []
   \<and> (\<exists>es. events (snd (resolve everyType dependent 7 twoTypes)) = events twoTypes @ es
         \<and> underMutex needsMutex 0 es \<and> foldl held 0 es = 0
         \<and> take 1 es = [Lookup (createKeyForType 7)]
         \<and> take 2 es = [Lookup (createKeyForType 7), Insert (build 7 (ConstructorDescriptor 7))]
         \<and> \<not> underMutex inserts 0 es)
   \<and> (\<exists>es. events (snd (resolveAll dependent 3 twoTypes)) = events twoTypes @ es
         \<and> underMutex needsMutex 0 es \<and> foldl held 0 es = 0
         \<and> take 1 es = [Lookup (createKeyForType 3)])"
proof -
  have h: "\<forall>sc k r st. \<exists>es. events (snd (dependent sc k r st)) = events st @ es \<and> lockedRun es"
    using dependent_trace by blast
  have a: "everyType 7" by (simp add: everyType_def)
  have b: "registered twoTypes (createKeyForType 7) = []"
    by (simp add: registered_def twoTypes_def s0_def createKeyForType_def)
  from mutex_held_around_getOrCreateComponent [OF h, of everyType 7 twoTypes 0] a b
    mutex_held_around_getOrCreateComponent [OF h, of everyType 3 twoTypes 0] h
  show ?thesis by simp
qed

text \<open>
  Claim C8 as stated puts the selection of the context and every insertion of the
  fallback under the mutex. In the run of \<open>resolve< T >()\<close> for an autowireable type
  without a registration, entered with the mutex free, the insertion comes before the
  one acquisition; in the run for a registered type the lookup that selects the context
  does.
\<close>

theorem mutex_counterexample:
  "events (snd (resolve everyType constructing 3 s0)) =
       [Lookup (createKeyForType 3), Insert (build 3 (ConstructorDescriptor 3)),
        Lookup (createKeyForType 3), NewResolutionContext, Lock,
        GetOrCreate (createKeyForType 3) (autoContext 0 3), Unlock, DeleteResolutionContext]
   \<and> underMutex inserts 0 (events (snd (resolve everyType constructing 3 s0))) = False
   \<and> underMutex selects 0 (events (snd (resolve noType constructing 3
        (withContexts 3 [userContext 0 3])))) = False"
  by (simp add: run_simps)




end
